theory Spec2Isabelle
  imports Complex_Main "HOL-Library.Word"
begin

unbundle bit_operations_syntax

section \<open>JavaScript values used by the library\<close>

text \<open>
  A \<^verbatim>\<open>Uint8Array\<close> or \<^verbatim>\<open>ArrayBuffer\<close> is a list of bytes. A JavaScript string is the
  list of its UTF-16 code units (numbers below 65536), which is what \<^verbatim>\<open>length\<close>,
  indexing and \<^verbatim>\<open>slice\<close> count. A \<^verbatim>\<open>bigint\<close> is an \<open>int\<close>. An argument that
  may be \<^verbatim>\<open>null\<close> or \<^verbatim>\<open>undefined\<close> is an \<open>option\<close>, \<open>None\<close> standing for both.
\<close>

type_synonym byte = "8 word"
type_synonym bytes = "byte list"
type_synonym js_string = "nat list"

text \<open>A string literal of ASCII characters, as its code units.\<close>

definition ascii :: "string \<Rightarrow> js_string" where
  "ascii s = map of_char s"

text \<open>
  Every \<^verbatim>\<open>throw new Error(...)\<close> of the sources is one constructor; the comment gives the
  message. \<open>SyntaxError\<close> is what \<^verbatim>\<open>BigInt(string)\<close> throws on a string that is not a
  number.
\<close>

datatype error =
    IdentityNullOrEmpty  \<comment> \<open>Identity (I) must not be null or empty.\<close>
  | SaltNull             \<comment> \<open>Salt (s) must not be null.\<close>
  | PasswordNull         \<comment> \<open>Password (P) must not be null\<close>
  | InvalidBase int      \<comment> \<open>Invalid base: x\<close>
  | InvalidPower int     \<comment> \<open>Invalid power: pow\<close>
  | InvalidModulo int    \<comment> \<open>Invalid modulo: mod\<close>
  | CiphertextTooShort   \<comment> \<open>Ciphertext too short (must include 16-byte auth tag)\<close>
  | AuthTagMismatch      \<comment> \<open>Decryption failed (authentication tag mismatch)\<close>
  | SyntaxError

subsection \<open>Number and bigint to hexadecimal text\<close>

definition hex_digit :: "nat \<Rightarrow> nat" where
  "hex_digit d = (if d < 10 then 48 + d else 87 + d)"

text \<open>\<^verbatim>\<open>toString(16)\<close> of a non-negative integer: lower-case digits, no leading zero.\<close>

fun toString16 :: "nat \<Rightarrow> js_string" where
  "toString16 n =
     (if n < 16 then [hex_digit n] else toString16 (n div 16) @ [hex_digit (n mod 16)])"

declare toString16.simps [simp del]

text \<open>\<^verbatim>\<open>n.toString(16)\<close> of a bigint: a minus sign before the digits of a negative one.\<close>

definition bigint_toString16 :: "int \<Rightarrow> js_string" where
  "bigint_toString16 n =
     (if n < 0 then 45 # toString16 (nat (- n)) else toString16 (nat n))"

subsection \<open>Hexadecimal text to numbers\<close>

definition hex_value :: "nat \<Rightarrow> nat option" where
  "hex_value c =
     (if 48 \<le> c \<and> c \<le> 57 then Some (c - 48)
      else if 97 \<le> c \<and> c \<le> 102 then Some (c - 87)
      else if 65 \<le> c \<and> c \<le> 70 then Some (c - 55)
      else None)"

text \<open>The value of the longest prefix of hexadecimal digits, continuing from \<open>acc\<close>.\<close>

fun parse_digits :: "nat \<Rightarrow> js_string \<Rightarrow> nat" where
  "parse_digits acc [] = acc"
| "parse_digits acc (c # cs) =
     (case hex_value c of None \<Rightarrow> acc | Some d \<Rightarrow> parse_digits (16 * acc + d) cs)"

text \<open>The code units that \<^verbatim>\<open>trim\<close> and \<^verbatim>\<open>parseInt\<close> skip: white space and line terminators.\<close>

definition is_white_space :: "nat \<Rightarrow> bool" where
  "is_white_space c =
     (c = 9 \<or> c = 10 \<or> c = 11 \<or> c = 12 \<or> c = 13 \<or> c = 32 \<or> c = 160 \<or> c = 5760
      \<or> (8192 \<le> c \<and> c \<le> 8202) \<or> c = 8232 \<or> c = 8233 \<or> c = 8239 \<or> c = 8287
      \<or> c = 12288 \<or> c = 65279)"

text \<open>
  \<^verbatim>\<open>parseInt(s, 16)\<close>: leading white space, a sign and a prefix \<^verbatim>\<open>0x\<close> are skipped, then
  the longest run of digits is read; \<open>None\<close> is \<^verbatim>\<open>NaN\<close>, the result when no digit is there.
\<close>

definition parseInt16 :: "js_string \<Rightarrow> int option" where
  "parseInt16 s =
     (let s1 = dropWhile is_white_space s;
          sign = (case s1 of c # _ \<Rightarrow> if c = 45 then - 1 else 1 | [] \<Rightarrow> (1::int));
          s2 = (case s1 of c # cs \<Rightarrow> if c = 45 \<or> c = 43 then cs else s1 | [] \<Rightarrow> []);
          s3 = (case s2 of a # b # cs \<Rightarrow> if a = 48 \<and> (b = 120 \<or> b = 88) then cs else s2
                | _ \<Rightarrow> s2)
      in case s3 of
           [] \<Rightarrow> None
         | c # _ \<Rightarrow> if hex_value c = None then None else Some (sign * int (parse_digits 0 s3)))"

text \<open>
  \<^verbatim>\<open>BigInt("0x" + h)\<close>: the digits of \<open>h\<close> read as a hexadecimal number; a \<open>SyntaxError\<close>
  when \<open>h\<close> is empty or holds anything but digits.
\<close>

definition BigInt_0x :: "js_string \<Rightarrow> error + int" where
  "BigInt_0x h =
     (if h = [] \<or> \<not> list_all (\<lambda>c. hex_value c \<noteq> None) h then Inl SyntaxError
      else Inr (int (parse_digits 0 h)))"

subsection \<open>Typed arrays\<close>

text \<open>
  Storing a number in a \<^verbatim>\<open>Uint8Array\<close> keeps it modulo 256, and stores 0 for \<^verbatim>\<open>NaN\<close>.
  A store past the end of the array is ignored, which is what \<open>list_update\<close> does. A read
  past the end gives \<^verbatim>\<open>undefined\<close>, here \<open>None\<close>; so does a read at the index \<^verbatim>\<open>NaN\<close>,
  which is what \<^verbatim>\<open>i % 0\<close> is.
\<close>

definition to_uint8 :: "int option \<Rightarrow> byte" where
  "to_uint8 v = (case v of None \<Rightarrow> 0 | Some k \<Rightarrow> word_of_int k)"

definition js_rem_index :: "nat \<Rightarrow> nat \<Rightarrow> nat option" where
  "js_rem_index i n = (if n = 0 then None else Some (i mod n))"

definition u8_get :: "bytes \<Rightarrow> nat option \<Rightarrow> byte option" where
  "u8_get a k = (case k of None \<Rightarrow> None | Some i \<Rightarrow> if i < length a then Some (a ! i) else None)"

text \<open>An operand of \<^verbatim>\<open>^\<close>: \<^verbatim>\<open>undefined\<close> counts as 0.\<close>

definition xor_operand :: "byte option \<Rightarrow> byte" where
  "xor_operand v = (case v of None \<Rightarrow> 0 | Some b \<Rightarrow> b)"

text \<open>\<^verbatim>\<open>s.slice(a, b)\<close> for \<open>0 \<le> a\<close> and \<open>0 \<le> b\<close>.\<close>

definition js_slice :: "'a list \<Rightarrow> nat \<Rightarrow> nat \<Rightarrow> 'a list" where
  "js_slice s a b = take (b - a) (drop a s)"

section \<open>utils.ts\<close>

subsection \<open>bigIntToArrayBuffer and arrayBufferToBigInt\<close>

definition bigIntToArrayBuffer :: "int \<Rightarrow> bytes" where
  "bigIntToArrayBuffer n =
     (let hex = bigint_toString16 n;
          byteLength = (length hex + 1) div 2;
          u8 = replicate byteLength (0::byte);
          odd_length = (length hex mod 2 \<noteq> 0);
          u8 = (if odd_length then u8[0 := to_uint8 (parseInt16 (take 1 hex))] else u8);
          offset = (if odd_length then 1 else 0)
      in fold (\<lambda>i u. u[i + offset :=
                 to_uint8 (parseInt16 (js_slice hex (2 * i + offset) (2 * i + 2 + offset)))])
           [0..<byteLength] u8)"

text \<open>\<^verbatim>\<open>("0" + i.toString(16)).slice(-2)\<close>: the last two characters.\<close>

definition byte_hex :: "byte \<Rightarrow> js_string" where
  "byte_hex i = (let s = 48 # toString16 (unat i) in drop (length s - 2) s)"

definition arrayBufferToBigInt :: "bytes \<Rightarrow> error + int" where
  "arrayBufferToBigInt arrayBuffer = BigInt_0x (concat (map byte_hex arrayBuffer))"

subsection \<open>modPow\<close>

text \<open>
  Division and remainder of bigints truncate towards zero. Both throw on a zero divisor;
  \<open>modPow\<close> divides by 2 and by a modulus that passed its check only.
\<close>

definition bigint_div :: "int \<Rightarrow> int \<Rightarrow> int" where
  "bigint_div a b = sgn a * sgn b * (\<bar>a\<bar> div \<bar>b\<bar>)"

definition bigint_rem :: "int \<Rightarrow> int \<Rightarrow> int" where
  "bigint_rem a b = sgn a * (\<bar>a\<bar> mod \<bar>b\<bar>)"

text \<open>The state of the loop is \<open>(x, pow, result)\<close>; \<open>modPow_body\<close> is one iteration.\<close>

definition modPow_body :: "int \<Rightarrow> int \<times> int \<times> int \<Rightarrow> int \<times> int \<times> int" where
  "modPow_body m st =
     (case st of (x, pow, result) \<Rightarrow>
        if bigint_rem pow 2 = 1 then (x, pow - 1, bigint_rem (x * result) m)
        else (bigint_rem (x * x) m, bigint_div pow 2, result))"

function modPow_loop :: "int \<Rightarrow> int \<times> int \<times> int \<Rightarrow> int" where
  "modPow_loop m (x, pow, result) =
     (if pow > 0 then modPow_loop m (modPow_body m (x, pow, result)) else result)"
  by pat_completeness auto
termination
  by (relation "measure (\<lambda>(m, x, pow, result). nat pow)")
     (auto simp: modPow_body_def bigint_div_def bigint_rem_def)

declare modPow_loop.simps [simp del]

definition modPow :: "int \<Rightarrow> int \<Rightarrow> int \<Rightarrow> error + int" where
  "modPow x pow m =
     (if x < 0 then Inl (InvalidBase x)
      else if pow < 0 then Inl (InvalidPower pow)
      else if m < 1 then Inl (InvalidModulo m)
      else Inr (modPow_loop m (x, pow, 1)))"

subsection \<open>Random bytes\<close>

text \<open>
  The two sources of randomness the code reads. \<open>Math_random\<close> lists the numbers that
  successive calls of \<^verbatim>\<open>Math.random()\<close> return, each in the interval from 0 (included) to
  1 (excluded); \<open>randomBytes_stream\<close> lists the bytes that \<^verbatim>\<open>crossEnvCrypto.randomBytes\<close>
  (the platform's \<^verbatim>\<open>getRandomValues\<close>) delivers. The two counters say how much of each
  has been consumed.
\<close>

record random_sources =
  Math_random :: "nat \<Rightarrow> real"
  Math_random_calls :: nat
  randomBytes_stream :: "nat \<Rightarrow> byte"
  randomBytes_used :: nat

definition generateRandom :: "nat \<Rightarrow> random_sources \<Rightarrow> bytes \<times> random_sources" where
  "generateRandom numBytes rs =
     (map (\<lambda>i. randomBytes_stream rs (randomBytes_used rs + i)) [0..<numBytes],
      rs\<lparr>randomBytes_used := randomBytes_used rs + numBytes\<rparr>)"

subsection \<open>Hashing\<close>

text \<open>
  \<^verbatim>\<open>crossEnvCrypto.hashFunctions\<close>: the digest functions of the platform, by name. They are
  the library's external dependency and stay a parameter \<open>hf\<close> of everything that hashes.
\<close>

datatype hash_name = SHA1 | SHA256 | SHA384 | SHA512

type_synonym HashFunction = "bytes \<Rightarrow> bytes"
type_synonym hashFunctions = "hash_name \<Rightarrow> HashFunction"

text \<open>
  Modelled from the spec: the class \<^verbatim>\<open>SRPParameters\<close> (parameters.ts) is not among the
  sources. The spec describes it as an immutable configuration of the prime group and the
  selected hash function \<open>H\<close>, whose default is SHA-512. Only \<open>H\<close> is read by the code
  modelled here, so the record holds that field alone. The constructor takes the selected
  hash function, or nothing (\<open>None\<close>) for the default.
\<close>

record SRPParameters =
  H :: HashFunction

definition SRPParameters_new :: "hashFunctions \<Rightarrow> HashFunction option \<Rightarrow> SRPParameters" where
  "SRPParameters_new hf selected =
     \<lparr>H = (case selected of None \<Rightarrow> hf SHA512 | Some h \<Rightarrow> h)\<rparr>"

text \<open>\<^verbatim>\<open>hash(parameters, ...arrays)\<close> copies the arrays one after the other and digests.\<close>

definition hash :: "SRPParameters \<Rightarrow> bytes list \<Rightarrow> bytes" where
  "hash parameters arrays = H parameters (concat arrays)"

subsection \<open>createVerifier\<close>

text \<open>
  The part of \<^verbatim>\<open>SRPRoutines\<close> (routines.ts, not among the sources) that \<open>createVerifier\<close>
  calls: three methods of the object it is given.
\<close>

record SRPRoutines =
  computeX :: "js_string \<Rightarrow> int \<Rightarrow> js_string \<Rightarrow> int"
  computeVerifier :: "int \<Rightarrow> int"
  generateRandomSalt :: "nat option \<Rightarrow> random_sources \<Rightarrow> int \<times> random_sources"

definition trim :: "js_string \<Rightarrow> js_string" where
  "trim str = rev (dropWhile is_white_space (rev (dropWhile is_white_space str)))"

text \<open>
  \<^verbatim>\<open>!v\<close> on a string that may be null: true for null, undefined and the empty string.
  On a bigint that may be null: true for null, undefined and \<^verbatim>\<open>0n\<close>. Past its three
  checks \<open>createVerifier\<close> holds an identity, a salt and a password that are not null, so
  the last case of its \<open>case\<close> is never taken.
\<close>

definition not_string :: "js_string option \<Rightarrow> bool" where
  "not_string v = (case v of None \<Rightarrow> True | Some str \<Rightarrow> str = [])"

definition not_bigint :: "int option \<Rightarrow> bool" where
  "not_bigint v = (case v of None \<Rightarrow> True | Some n \<Rightarrow> n = 0)"

definition createVerifier ::
  "SRPRoutines \<Rightarrow> js_string option \<Rightarrow> int option \<Rightarrow> js_string option \<Rightarrow> error + int" where
  "createVerifier routines I s P =
     (if not_string I \<or> not_string (map_option trim I) then Inl IdentityNullOrEmpty
      else if not_bigint s then Inl SaltNull
      else if not_string P then Inl PasswordNull
      else case (I, s, P) of
             (Some I', Some s', Some P') \<Rightarrow>
               Inr (computeVerifier routines (computeX routines I' s' P'))
           | _ \<Rightarrow> Inl IdentityNullOrEmpty)"

text \<open>The interface \<^verbatim>\<open>IVerifierAndSalt\<close>, fields \<^verbatim>\<open>v\<close> and \<^verbatim>\<open>s\<close>.\<close>

record IVerifierAndSalt =
  verifier_v :: int
  salt_s :: int

definition createVerifierAndSalt ::
  "SRPRoutines \<Rightarrow> js_string option \<Rightarrow> js_string option \<Rightarrow> nat option \<Rightarrow> random_sources
     \<Rightarrow> (error + IVerifierAndSalt) \<times> random_sources" where
  "createVerifierAndSalt routines I P sBytes rs =
     (case generateRandomSalt routines sBytes rs of
        (s, rs') \<Rightarrow>
          (case createVerifier routines I (Some s) P of
             Inl e \<Rightarrow> Inl e
           | Inr v \<Rightarrow> Inr \<lparr>verifier_v = v, salt_s = s\<rparr>,
           rs'))"

section \<open>encryption.ts\<close>

subsection \<open>TextEncoder\<close>

text \<open>
  \<^verbatim>\<open>new TextEncoder().encode(str)\<close>: the code units are read as code points (a surrogate
  pair is one code point, a lone surrogate becomes U+FFFD) and each is written in UTF-8.
\<close>

definition scalar_value :: "nat \<Rightarrow> nat" where
  "scalar_value u = (if 55296 \<le> u \<and> u \<le> 57343 then 65533 else u)"

fun code_points :: "js_string \<Rightarrow> nat list" where
  "code_points [] = []"
| "code_points [u] = [scalar_value u]"
| "code_points (u # l # us) =
     (if 55296 \<le> u \<and> u \<le> 56319 \<and> 56320 \<le> l \<and> l \<le> 57343
      then (65536 + (u - 55296) * 1024 + (l - 56320)) # code_points us
      else scalar_value u # code_points (l # us))"

definition utf8 :: "nat \<Rightarrow> nat list" where
  "utf8 c =
     (if c < 128 then [c]
      else if c < 2048 then [192 + c div 64, 128 + c mod 64]
      else if c < 65536 then [224 + c div 4096, 128 + c div 64 mod 64, 128 + c mod 64]
      else [240 + c div 262144, 128 + c div 4096 mod 64, 128 + c div 64 mod 64,
            128 + c mod 64])"

definition TextEncoder_encode :: "js_string \<Rightarrow> bytes" where
  "TextEncoder_encode str = map of_nat (concat (map utf8 (code_points str)))"

subsection \<open>Keys, IV, stream cipher and tag\<close>

record derived_keys =
  encKey :: bytes
  macKey :: bytes

definition deriveKeys :: "hashFunctions \<Rightarrow> int \<Rightarrow> derived_keys" where
  "deriveKeys hf S =
     (let params = SRPParameters_new hf None;
          sBytes = bigIntToArrayBuffer S;
          encKey = hash params [sBytes, TextEncoder_encode (ascii ''encryption'')];
          macKey = hash params [sBytes, TextEncoder_encode (ascii ''authentication'')]
      in \<lparr>encKey = encKey, macKey = macKey\<rparr>)"

text \<open>
  \<open>generateIV\<close>: sixteen times \<^verbatim>\<open>Math.floor(Math.random() * 256)\<close>. The product with 256
  is exact in floating point, so the real product is what the code computes.
\<close>

definition generateIV :: "random_sources \<Rightarrow> bytes \<times> random_sources" where
  "generateIV rs =
     (map (\<lambda>i. to_uint8 (Some \<lfloor>Math_random rs (Math_random_calls rs + i) * 256\<rfloor>)) [0..<16],
      rs\<lparr>Math_random_calls := Math_random_calls rs + 16\<rparr>)"

definition xorCrypt :: "bytes \<Rightarrow> bytes \<Rightarrow> bytes \<Rightarrow> bytes" where
  "xorCrypt data key iv0 =
     (let keyStream =
            map (\<lambda>i. xor_operand (u8_get key (js_rem_index i (length key)))
                      XOR xor_operand (u8_get iv0 (js_rem_index i (length iv0))))
              [0..<length data]
      in map (\<lambda>i. data ! i XOR keyStream ! i) [0..<length data])"

definition computeMAC :: "hashFunctions \<Rightarrow> bytes \<Rightarrow> bytes \<Rightarrow> bytes \<Rightarrow> bytes" where
  "computeMAC hf macKey0 iv0 ciphertext0 =
     (let params = SRPParameters_new hf None in hash params [macKey0, iv0, ciphertext0])"

subsection \<open>encrypt and decrypt\<close>

text \<open>The argument \<^verbatim>\<open>data: string | ArrayBuffer\<close>, and the object \<open>encrypt\<close> returns.\<close>

datatype data = Str js_string | Buf bytes

record encrypted_message =
  iv :: bytes
  ciphertext :: bytes

definition encrypt ::
  "hashFunctions \<Rightarrow> int \<Rightarrow> data \<Rightarrow> random_sources \<Rightarrow> encrypted_message \<times> random_sources" where
  "encrypt hf sessionKey dat rs =
     (let keys = deriveKeys hf sessionKey;
          (iv0, rs') = generateIV rs;
          plaintext = (case dat of Str str \<Rightarrow> TextEncoder_encode str | Buf b \<Rightarrow> b);
          encrypted = xorCrypt plaintext (encKey keys) iv0;
          mac = computeMAC hf (macKey keys) iv0 encrypted;
          tag = js_slice mac 0 16;
          combined = encrypted @ tag
      in (\<lparr>iv = iv0, ciphertext = combined\<rparr>, rs'))"

text \<open>
  The comparison of the tags reads both arrays at the sixteen indices; a read past the end
  of the computed tag is \<^verbatim>\<open>undefined\<close> and differs from every byte.
\<close>

definition decrypt :: "hashFunctions \<Rightarrow> int \<Rightarrow> bytes \<Rightarrow> bytes \<Rightarrow> error + bytes" where
  "decrypt hf sessionKey iv0 ciphertext0 =
     (let keys = deriveKeys hf sessionKey;
          ctBuffer = ciphertext0
      in if length ctBuffer < 16 then Inl CiphertextTooShort
         else
           let actualCiphertext = js_slice ctBuffer 0 (length ctBuffer - 16);
               receivedTag = drop (length ctBuffer - 16) ctBuffer;
               computedMAC = computeMAC hf (macKey keys) iv0 actualCiphertext;
               computedTag = js_slice computedMAC 0 16;
               tagMatch =
                 fold (\<lambda>i m. if u8_get receivedTag (Some i) \<noteq> u8_get computedTag (Some i)
                              then False else m)
                   [0..<16] True
           in if \<not> tagMatch then Inl AuthTagMismatch
              else Inr (xorCrypt actualCiphertext (encKey keys) iv0))"

section \<open>Reference definitions\<close>

text \<open>
  The spec's byte encoding of a non-negative integer, in its words: big-endian and of
  minimum length. \<open>be_encode\<close> writes the base-256 digits, most significant first, with at
  least one digit; \<open>be_value\<close> reads a byte string as a big-endian number.
\<close>

fun be_encode :: "nat \<Rightarrow> bytes" where
  "be_encode n = (if n < 256 then [of_nat n] else be_encode (n div 256) @ [of_nat (n mod 256)])"

declare be_encode.simps [simp del]

definition be_value :: "bytes \<Rightarrow> nat" where
  "be_value bs = foldl (\<lambda>a b. 256 * a + unat b) 0 bs"

text \<open>
  The text that \<open>bigIntToArrayBuffer\<close> parses for byte \<open>j\<close>: two characters of the
  hexadecimal text, or its first character alone when the text has odd length.
\<close>

definition hex_chunk :: "js_string \<Rightarrow> nat \<Rightarrow> js_string" where
  "hex_chunk hex j =
     (if even (length hex) then js_slice hex (2 * j) (2 * j + 2)
      else if j = 0 then take 1 hex
      else js_slice hex (2 * j - 1) (2 * j + 1))"

section \<open>An example platform\<close>

text \<open>
  Stand-ins for the platform in the examples: digests that have the length of the named
  algorithm's (20, 32, 48 and 64 bytes) and hold the sum of the input bytes, a
  \<^verbatim>\<open>Math.random()\<close> that returns one half, and a \<^verbatim>\<open>randomBytes\<close> that delivers the bytes
  255.
\<close>

definition digest_length :: "hash_name \<Rightarrow> nat" where
  "digest_length name = (case name of SHA1 \<Rightarrow> 20 | SHA256 \<Rightarrow> 32 | SHA384 \<Rightarrow> 48 | SHA512 \<Rightarrow> 64)"

definition example_hashFunctions :: hashFunctions where
  "example_hashFunctions name input = replicate (digest_length name) (sum_list input)"

definition example_sources :: random_sources where
  "example_sources =
     \<lparr>Math_random = (\<lambda>i. 1 / 2), Math_random_calls = 0,
      randomBytes_stream = (\<lambda>i. 255), randomBytes_used = 0\<rparr>"

definition example_routines :: SRPRoutines where
  "example_routines =
     \<lparr>computeX = (\<lambda>I s P. s + int (length I) + int (length P)),
      computeVerifier = (\<lambda>x. 2 * x),
      generateRandomSalt = (\<lambda>n rs. (7, rs))\<rparr>"

section \<open>Properties\<close>

subsection \<open>bigint and bytes\<close>

lemma length_fold_update:
  "length (fold (\<lambda>i u. u[g i := f i]) is u) = length u"
  by (induction "is" arbitrary: u) simp_all

lemma nth_fold_update:
  "j < length u \<Longrightarrow>
     fold (\<lambda>i u. u[i + off := f i]) [0..<k] u ! j
       = (if off \<le> j \<and> j - off < k then f (j - off) else u ! j)"
proof (induction k)
  case 0
  then show ?case by simp
next
  case (Suc k)
  show ?case
  proof (cases "j = k + off")
    case True
    with Suc.prems show ?thesis by (simp add: length_fold_update)
  next
    case False
    with Suc show ?thesis by (auto simp: length_fold_update nth_list_update)
  qed
qed

lemmas nth_fold_update0 = nth_fold_update [where off = 0, simplified]
lemmas nth_fold_update1 = nth_fold_update [where off = "Suc 0", simplified]

lemma bigIntToArrayBuffer_length:
  "length (bigIntToArrayBuffer n) = (length (bigint_toString16 n) + 1) div 2"
  by (simp add: bigIntToArrayBuffer_def Let_def length_fold_update)

lemma bigIntToArrayBuffer_nth:
  assumes "j < (length (bigint_toString16 n) + 1) div 2"
  shows "bigIntToArrayBuffer n ! j = to_uint8 (parseInt16 (hex_chunk (bigint_toString16 n) j))"
proof -
  define hex where "hex = bigint_toString16 n"
  define B where "B = (length hex + 1) div 2"
  have j: "j < B" using assms by (simp add: B_def hex_def)
  show ?thesis
  proof (cases "even (length hex)")
    case True
    then have "bigIntToArrayBuffer n
        = fold (\<lambda>i u. u[i := to_uint8 (parseInt16 (js_slice hex (2 * i) (2 * i + 2)))])
            [0..<B] (replicate B 0)"
      by (simp add: bigIntToArrayBuffer_def Let_def hex_def B_def even_iff_mod_2_eq_zero)
    with j True show ?thesis
      by (simp add: nth_fold_update0 hex_chunk_def flip: hex_def)
  next
    case False
    then have odd: "length hex mod 2 \<noteq> 0"
      by (simp add: even_iff_mod_2_eq_zero)
    define u0 where "u0 = (replicate B (0::byte))[0 := to_uint8 (parseInt16 (take 1 hex))]"
    have eq: "bigIntToArrayBuffer n
        = fold (\<lambda>i u. u[Suc i := to_uint8 (parseInt16 (js_slice hex (2 * i + 1) (2 * i + 2 + 1)))])
            [0..<B] u0"
      using odd by (simp add: bigIntToArrayBuffer_def Let_def u0_def B_def flip: hex_def)
    have len: "length u0 = B" by (simp add: u0_def)
    show ?thesis
    proof (cases "j = 0")
      case True
      with j have "u0 ! j = to_uint8 (parseInt16 (take 1 hex))" by (simp add: u0_def)
      with True j len False show ?thesis
        by (simp add: eq nth_fold_update1 hex_chunk_def flip: hex_def)
    next
      case j0: False
      then have idx: "2 * (j - 1) + 1 = 2 * j - 1" "2 * (j - 1) + 2 + 1 = 2 * j + 1"
        by simp_all
      have "bigIntToArrayBuffer n ! j
          = to_uint8 (parseInt16 (js_slice hex (2 * (j - 1) + 1) (2 * (j - 1) + 2 + 1)))"
        unfolding eq using j j0 len by (subst nth_fold_update1) auto
      then show ?thesis
        using j0 False unfolding idx by (simp add: hex_chunk_def flip: hex_def)
    qed
  qed
qed


lemma hex_value_hex_digit: "d < 16 \<Longrightarrow> hex_value (hex_digit d) = Some d"
  by (auto simp: hex_value_def hex_digit_def)

lemma hex_digit_range:
  "d < 16 \<Longrightarrow> (48 \<le> hex_digit d \<and> hex_digit d \<le> 57) \<or> (97 \<le> hex_digit d \<and> hex_digit d \<le> 102)"
  by (auto simp: hex_digit_def)

lemma hex_digit_plain:
  assumes "d < 16"
  shows "\<not> is_white_space (hex_digit d)" "hex_digit d \<noteq> 45" "hex_digit d \<noteq> 43"
    "hex_digit d \<noteq> 120" "hex_digit d \<noteq> 88"
  using hex_digit_range [OF assms] by (auto simp: is_white_space_def)

lemma parseInt16_one_digit: "a < 16 \<Longrightarrow> parseInt16 [hex_digit a] = Some (int a)"
  by (simp add: parseInt16_def hex_digit_plain hex_value_hex_digit)

lemma parseInt16_two_digits:
  "a < 16 \<Longrightarrow> b < 16 \<Longrightarrow> parseInt16 [hex_digit a, hex_digit b] = Some (int (16 * a + b))"
  by (simp add: parseInt16_def hex_digit_plain hex_value_hex_digit)

lemma toString16_small: "m < 16 \<Longrightarrow> toString16 m = [hex_digit m]"
  by (simp add: toString16.simps)

lemma toString16_step: "16 \<le> m \<Longrightarrow> toString16 m = toString16 (m div 16) @ [hex_digit (m mod 16)]"
  by (subst toString16.simps) simp

lemma toString16_two: "16 \<le> m \<Longrightarrow> m < 256 \<Longrightarrow> toString16 m = [hex_digit (m div 16), hex_digit (m mod 16)]"
  by (simp add: toString16_step toString16_small)

lemma toString16_step2:
  assumes "256 \<le> m"
  shows "toString16 m = toString16 (m div 256) @ [hex_digit (m div 16 mod 16), hex_digit (m mod 16)]"
proof -
  have "16 \<le> m div 16" using assms by simp
  then have "toString16 (m div 16) = toString16 (m div 16 div 16) @ [hex_digit (m div 16 mod 16)]"
    by (rule toString16_step)
  moreover have "m div 16 div 16 = m div 256" by (simp add: div_mult2_eq)
  ultimately show ?thesis using assms by (simp add: toString16_step)
qed

lemma toString16_nonempty: "toString16 m \<noteq> []"
  by (subst toString16.simps) simp

lemma hex_chunk_append_old:
  assumes "h \<noteq> []" and "j < (length h + 1) div 2"
  shows "hex_chunk (h @ [a, b]) j = hex_chunk h j"
proof (cases "even (length h)")
  case True
  then obtain q where q: "length h = 2 * q" by (auto elim: evenE)
  with assms have "2 * j + 2 \<le> length h" by simp
  with True show ?thesis by (simp add: hex_chunk_def js_slice_def)
next
  case False
  then obtain q where q: "length h = 2 * q + 1" by (auto elim: oddE)
  show ?thesis
  proof (cases "j = 0")
    case True
    with False assms show ?thesis by (cases h) (simp_all add: hex_chunk_def)
  next
    case j: False
    with assms q have "2 * j + 1 \<le> length h" by simp
    with False j show ?thesis by (simp add: hex_chunk_def js_slice_def)
  qed
qed

lemma hex_chunk_append_new:
  assumes "h \<noteq> []"
  shows "hex_chunk (h @ [a, b]) ((length h + 1) div 2) = [a, b]"
proof (cases "even (length h)")
  case True
  then obtain q where q: "length h = 2 * q" by (auto elim: evenE)
  with True show ?thesis by (simp add: hex_chunk_def js_slice_def)
next
  case False
  then obtain q where q: "length h = 2 * q + 1" by (auto elim: oddE)
  with False show ?thesis by (simp add: hex_chunk_def js_slice_def)
qed

lemma bigint_toString16_nat: "bigint_toString16 (int m) = toString16 m"
  by (simp add: bigint_toString16_def)

lemma mod_256_digits: "16 * (m div 16 mod 16) + m mod 16 = m mod (256::nat)"
proof -
  have "m mod 256 = m mod 16 + 16 * (m div 16 mod 16)"
    using mod_mult2_eq [of m 16 16] by simp
  then show ?thesis by simp
qed

lemma bigIntToArrayBuffer_nat: "bigIntToArrayBuffer (int m) = be_encode m"
proof (induction m rule: be_encode.induct)
  case (1 m)
  show ?case
  proof (cases "m < 256")
    case True
    show ?thesis
    proof (cases "m < 16")
      case True
      then have hex: "bigint_toString16 (int m) = [hex_digit m]"
        by (simp add: bigint_toString16_nat toString16_small)
      have "length (bigIntToArrayBuffer (int m)) = 1"
        by (simp add: bigIntToArrayBuffer_length hex)
      moreover have "bigIntToArrayBuffer (int m) ! 0 = of_nat m"
        using True by (simp add: bigIntToArrayBuffer_nth hex hex_chunk_def parseInt16_one_digit to_uint8_def)
      ultimately have "bigIntToArrayBuffer (int m) = [of_nat m]"
        by (cases "bigIntToArrayBuffer (int m)") auto
      with \<open>m < 256\<close> show ?thesis by (simp add: be_encode.simps)
    next
      case False
      with True have hex: "bigint_toString16 (int m) = [hex_digit (m div 16), hex_digit (m mod 16)]"
        by (simp add: bigint_toString16_nat toString16_two)
      have "length (bigIntToArrayBuffer (int m)) = 1"
        by (simp add: bigIntToArrayBuffer_length hex)
      moreover have "bigIntToArrayBuffer (int m) ! 0 = of_nat m"
        using True by (simp add: bigIntToArrayBuffer_nth hex hex_chunk_def js_slice_def
            parseInt16_two_digits to_uint8_def)
      ultimately have "bigIntToArrayBuffer (int m) = [of_nat m]"
        by (cases "bigIntToArrayBuffer (int m)") auto
      with \<open>m < 256\<close> show ?thesis by (simp add: be_encode.simps)
    qed
  next
    case False
    define h where "h = toString16 (m div 256)"
    define a where "a = hex_digit (m div 16 mod 16)"
    define b where "b = hex_digit (m mod 16)"
    define B where "B = (length h + 1) div 2"
    have h: "h \<noteq> []" by (simp add: h_def toString16_nonempty)
    have hex: "bigint_toString16 (int m) = h @ [a, b]"
      using False by (simp add: bigint_toString16_nat toString16_step2 h_def a_def b_def)
    have hex': "bigint_toString16 (int (m div 256)) = h"
      by (simp add: bigint_toString16_nat h_def)
    have IH: "bigIntToArrayBuffer (int (m div 256)) = be_encode (m div 256)"
      using 1 False by simp
    have len': "length (bigIntToArrayBuffer (int (m div 256))) = B"
      by (simp add: bigIntToArrayBuffer_length hex' B_def)
    have len: "length (bigIntToArrayBuffer (int m)) = B + 1"
      by (simp add: bigIntToArrayBuffer_length hex B_def)
    have last: "to_uint8 (parseInt16 [a, b]) = of_nat (m mod 256)"
      by (simp add: a_def b_def parseInt16_two_digits to_uint8_def mod_256_digits)
    have "bigIntToArrayBuffer (int m) = bigIntToArrayBuffer (int (m div 256)) @ [of_nat (m mod 256)]"
    proof (rule nth_equalityI)
      show "length (bigIntToArrayBuffer (int m))
          = length (bigIntToArrayBuffer (int (m div 256)) @ [of_nat (m mod 256)])"
        by (simp add: len len')
    next
      fix j assume "j < length (bigIntToArrayBuffer (int m))"
      then have j: "j < B + 1" by (simp add: len)
      show "bigIntToArrayBuffer (int m) ! j
          = (bigIntToArrayBuffer (int (m div 256)) @ [of_nat (m mod 256)]) ! j"
      proof (cases "j < B")
        case True
        then have "bigIntToArrayBuffer (int m) ! j = to_uint8 (parseInt16 (hex_chunk h j))"
          using hex_chunk_append_old [OF h, of j a b]
          by (simp add: bigIntToArrayBuffer_nth hex B_def)
        also have "\<dots> = bigIntToArrayBuffer (int (m div 256)) ! j"
          using True by (simp add: bigIntToArrayBuffer_nth hex' B_def)
        finally show ?thesis using True by (simp add: nth_append len')
      next
        case False
        with j have jB: "j = B" by simp
        have "bigIntToArrayBuffer (int m) ! B = to_uint8 (parseInt16 [a, b])"
          using hex_chunk_append_new [OF h, of a b]
          by (simp add: bigIntToArrayBuffer_nth hex B_def)
        then show ?thesis by (simp add: jB nth_append len' last)
      qed
    qed
    with False IH show ?thesis by (simp add: be_encode.simps [of m])
  qed
qed


lemma bigIntToArrayBuffer_be: "0 \<le> n \<Longrightarrow> bigIntToArrayBuffer n = be_encode (nat n)"
  using bigIntToArrayBuffer_nat [of "nat n"] by simp

lemma unat_byte_less: "unat (b::byte) < 256"
  using unsigned_less [of b, where ?'a = nat] by simp

lemma unat_byte_div16: "unat (b::byte) div 16 < 16"
  using unat_byte_less [of b] by (simp add: less_mult_imp_div_less)

lemma unat_byte_mod16: "unat (b::byte) mod 16 < 16"
  by simp

lemma byte_hex_eq: "byte_hex b = [hex_digit (unat b div 16), hex_digit (unat b mod 16)]"
proof (cases "unat b < 16")
  case True
  then show ?thesis
    by (simp add: byte_hex_def toString16_small hex_digit_def)
next
  case False
  moreover note unat_byte_less [of b]
  ultimately show ?thesis
    by (simp add: byte_hex_def toString16_two)
qed

lemma parse_digits_byte_hex:
  "parse_digits acc (byte_hex b @ rest) = parse_digits (256 * acc + unat b) rest"
proof -
  note lt = unat_byte_div16 [of b]
  have "16 * (16 * acc + unat b div 16) + unat b mod 16 = 256 * acc + unat b"
    by simp
  then show ?thesis
    by (simp only: byte_hex_eq append_Cons append_Nil parse_digits.simps hex_value_hex_digit lt
        unat_byte_mod16 option.case)
qed

lemma parse_digits_bytes:
  "parse_digits acc (concat (map byte_hex bs)) = foldl (\<lambda>a b. 256 * a + unat b) acc bs"
  by (induction bs arbitrary: acc) (simp_all add: parse_digits_byte_hex)

lemma byte_hex_digits: "list_all (\<lambda>c. hex_value c \<noteq> None) (concat (map byte_hex bs))"
  by (induction bs) (simp_all add: byte_hex_eq hex_value_hex_digit unat_byte_div16)

lemma arrayBufferToBigInt_eq:
  "arrayBufferToBigInt bs = (if bs = [] then Inl SyntaxError else Inr (int (be_value bs)))"
proof (cases bs)
  case Nil
  then show ?thesis by (simp add: arrayBufferToBigInt_def BigInt_0x_def)
next
  case (Cons b bs')
  then have "concat (map byte_hex bs) \<noteq> []" by (simp add: byte_hex_eq)
  moreover have "bs \<noteq> []" using Cons by simp
  ultimately show ?thesis
    unfolding arrayBufferToBigInt_def BigInt_0x_def be_value_def
    using byte_hex_digits [of bs] parse_digits_bytes [of 0 bs] by simp
qed

lemma be_value_snoc: "be_value (bs @ [b]) = 256 * be_value bs + unat b"
  by (simp add: be_value_def)

lemma be_value_be_encode: "be_value (be_encode m) = m"
proof (induction m rule: be_encode.induct)
  case (1 m)
  show ?case
  proof (cases "m < 256")
    case True
    then show ?thesis
      by (simp add: be_encode.simps [of m] be_value_def unat_of_nat)
  next
    case False
    with 1 show ?thesis
      by (simp add: be_encode.simps [of m] be_value_snoc unat_of_nat)
  qed
qed

lemma be_value_bound: "be_value bs < 256 ^ length bs"
proof (induction bs rule: rev_induct)
  case Nil
  then show ?case by (simp add: be_value_def)
next
  case (snoc b bs)
  note unat_byte_less [of b]
  with snoc show ?case by (simp add: be_value_snoc)
qed

lemma length_be_encode_le: "m < 256 ^ k \<Longrightarrow> 0 < k \<Longrightarrow> length (be_encode m) \<le> k"
proof (induction m arbitrary: k rule: be_encode.induct)
  case (1 m)
  show ?case
  proof (cases "m < 256")
    case True
    with 1 show ?thesis by (simp add: be_encode.simps [of m])
  next
    case False
    obtain k' where k: "k = Suc k'" using 1 by (cases k) auto
    with 1 False have "0 < k'" by (cases k') auto
    moreover have "m div 256 < 256 ^ k'"
      using 1 k by (simp add: less_mult_imp_div_less)
    ultimately have "length (be_encode (m div 256)) \<le> k'"
      using 1 False by simp
    with False k show ?thesis by (simp add: be_encode.simps [of m])
  qed
qed

text \<open>
  C9. For a non-negative \<open>n\<close>, \<open>bigIntToArrayBuffer n\<close> is the big-endian encoding of \<open>n\<close>
  of minimum length (no byte string that is not empty and has the value \<open>n\<close> is shorter;
  0 is the single byte 0), and \<open>arrayBufferToBigInt\<close> gives \<open>n\<close> back from it.
\<close>

theorem bigIntToArrayBuffer_roundtrip:
  assumes "0 \<le> n"
  shows "arrayBufferToBigInt (bigIntToArrayBuffer n) = Inr n
       \<and> bigIntToArrayBuffer n = be_encode (nat n)
       \<and> int (be_value (bigIntToArrayBuffer n)) = n
       \<and> (\<forall>bs. bs \<noteq> [] \<and> int (be_value bs) = n \<longrightarrow> length (bigIntToArrayBuffer n) \<le> length bs)"
proof -
  have enc: "bigIntToArrayBuffer n = be_encode (nat n)"
    using assms by (rule bigIntToArrayBuffer_be)
  have ne: "be_encode (nat n) \<noteq> []"
    by (subst be_encode.simps) simp
  have val: "int (be_value (be_encode (nat n))) = n"
    using assms by (simp add: be_value_be_encode)
  have "length (be_encode (nat n)) \<le> length bs" if "bs \<noteq> []" "int (be_value bs) = n" for bs
  proof -
    have "nat n = be_value bs" using that by auto
    then have "nat n < 256 ^ length bs" by (simp add: be_value_bound)
    then show ?thesis using that by (simp add: length_be_encode_le)
  qed
  with enc ne val show ?thesis
    by (simp add: arrayBufferToBigInt_eq)
qed

theorem bigIntToArrayBuffer_roundtrip_witness:
  "(0::int) \<le> 291
   \<and> arrayBufferToBigInt (bigIntToArrayBuffer 291) = Inr 291
   \<and> bigIntToArrayBuffer 291 = [1, 35]
   \<and> length (bigIntToArrayBuffer 291) \<le> length [0, 1, 35 :: byte]"
  using bigIntToArrayBuffer_roundtrip [of 291]
  by (auto simp: be_encode.simps)

subsection \<open>The encryption layer\<close>

lemma TextEncoder_encode_ascii:
  "list_all (\<lambda>c. of_char c < (128::nat)) s \<Longrightarrow> TextEncoder_encode (ascii s) = map of_char s"
proof -
  have cp: "list_all (\<lambda>u. u < 128) us \<Longrightarrow> code_points us = us" for us
    by (induction us rule: code_points.induct) (auto simp: scalar_value_def)
  have u8: "list_all (\<lambda>u. u < 128) us \<Longrightarrow> concat (map utf8 us) = us" for us
    by (induction us) (auto simp: utf8_def)
  assume a: "list_all (\<lambda>c. of_char c < (128::nat)) s"
  then have "list_all (\<lambda>u. u < 128) (ascii s)"
    by (simp add: ascii_def list_all_iff)
  then show ?thesis
    by (simp add: TextEncoder_encode_def cp u8) (simp add: ascii_def of_nat_of_char)
qed

lemma enc_lit: "TextEncoder_encode (ascii ''encryption'') = map of_char ''encryption''"
  by (rule TextEncoder_encode_ascii) simp

lemma auth_lit: "TextEncoder_encode (ascii ''authentication'') = map of_char ''authentication''"
  by (rule TextEncoder_encode_ascii) simp

lemma length_xorCrypt: "length (xorCrypt d k v) = length d"
  by (simp add: xorCrypt_def)

lemma xorCrypt_nth:
  "i < length d \<Longrightarrow>
     xorCrypt d k v ! i =
       d ! i XOR (xor_operand (u8_get k (js_rem_index i (length k)))
                  XOR xor_operand (u8_get v (js_rem_index i (length v))))"
  by (simp add: xorCrypt_def)

lemma xor_cancel: "(a XOR b) XOR b = (a::byte)"
  by (simp add: xor.assoc)

lemma xorCrypt_involution: "xorCrypt (xorCrypt d k v) k v = d"
  by (rule nth_equalityI) (simp_all add: length_xorCrypt xorCrypt_nth xor_cancel)

lemma xorCrypt_nth_nonempty:
  "i < length d \<Longrightarrow> k \<noteq> [] \<Longrightarrow> v \<noteq> [] \<Longrightarrow>
     xorCrypt d k v ! i = d ! i XOR k ! (i mod length k) XOR v ! (i mod length v)"
  by (simp add: xorCrypt_nth js_rem_index_def u8_get_def xor_operand_def xor.assoc)

lemma xorCrypt_bytes:
  "xorCrypt d k v
     = map (\<lambda>i. d ! i XOR (if k = [] then 0 else k ! (i mod length k))
                    XOR (if v = [] then 0 else v ! (i mod length v)))
         [0..<length d]"
  by (rule nth_equalityI)
     (simp_all add: length_xorCrypt xorCrypt_nth js_rem_index_def u8_get_def xor_operand_def
        xor.assoc)

lemma fold_tag_compare:
  "fold (\<lambda>i m. if f i \<noteq> g i then False else m) [0..<n] b \<longleftrightarrow> b \<and> (\<forall>i<n. f i = g i)"
  by (induction n) (auto simp: less_Suc_eq)

lemma tags_agree_iff:
  assumes "length r = 16"
  shows "(\<forall>i<16. u8_get r (Some i) = u8_get (take 16 c) (Some i)) \<longleftrightarrow> take 16 c = r"
proof
  assume eq: "\<forall>i<16. u8_get r (Some i) = u8_get (take 16 c) (Some i)"
  have len: "length (take 16 c) = 16"
  proof (rule ccontr)
    assume "length (take 16 c) \<noteq> 16"
    then have "length (take 16 c) < 16" by simp
    with eq assms show False
      by (auto simp: u8_get_def dest!: spec [of _ "length (take 16 c)"])
  qed
  show "take 16 c = r"
  proof (rule nth_equalityI)
    show "length (take 16 c) = length r" using len assms by simp
  next
    fix i assume "i < length (take 16 c)"
    then have "i < 16" using len by simp
    with eq have "u8_get r (Some i) = u8_get (take 16 c) (Some i)" by blast
    with \<open>i < 16\<close> len assms show "take 16 c ! i = r ! i"
      by (simp add: u8_get_def)
  qed
next
  assume "take 16 c = r"
  then show "\<forall>i<16. u8_get r (Some i) = u8_get (take 16 c) (Some i)" by simp
qed

lemma H_default: "H (SRPParameters_new hf None) = hf SHA512"
  by (simp add: SRPParameters_new_def)

lemma computeMAC_eq: "computeMAC hf k v c = hf SHA512 (k @ v @ c)"
  by (simp add: computeMAC_def hash_def H_default)

lemma decrypt_eq:
  "decrypt hf S v ct =
     (if length ct < 16 then Inl CiphertextTooShort
      else if take 16 (hf SHA512 (macKey (deriveKeys hf S) @ v @ take (length ct - 16) ct))
              \<noteq> drop (length ct - 16) ct
        then Inl AuthTagMismatch
      else Inr (xorCrypt (take (length ct - 16) ct) (encKey (deriveKeys hf S)) v))"
proof (cases "length ct < 16")
  case True
  then show ?thesis by (simp add: decrypt_def)
next
  case False
  then have "length (drop (length ct - 16) ct) = 16" by simp
  from tags_agree_iff [OF this] False show ?thesis
    by (simp add: decrypt_def Let_def fold_tag_compare js_slice_def computeMAC_eq)
qed

lemma length_generateIV: "length (fst (generateIV rs)) = 16"
  by (simp add: generateIV_def)

lemma encrypt_eq:
  "fst (encrypt hf S dat rs) =
     (let v = fst (generateIV rs);
          e = xorCrypt (case dat of Str str \<Rightarrow> TextEncoder_encode str | Buf b \<Rightarrow> b)
                (encKey (deriveKeys hf S)) v
      in \<lparr>iv = v, ciphertext = e @ take 16 (hf SHA512 (macKey (deriveKeys hf S) @ v @ e))\<rparr>)"
  by (simp add: encrypt_def Let_def js_slice_def computeMAC_eq split: prod.splits)

text \<open>
  C1. Whatever the session secret, the plaintext (a string, encoded in UTF-8, or a buffer)
  and the random numbers drawn for the IV: decrypting the ciphertext that \<open>encrypt\<close>
  returns, with the same secret and the IV that \<open>encrypt\<close> returns, gives the bytes of the
  plaintext. The digests of the platform must have at least the 16 bytes of a tag, as
  those of the four supported algorithms have.
\<close>

theorem decrypt_encrypt:
  assumes "\<forall>x. 16 \<le> length (hf SHA512 x)"
  shows "decrypt hf S (iv (fst (encrypt hf S dat rs))) (ciphertext (fst (encrypt hf S dat rs)))
           = Inr (case dat of Str str \<Rightarrow> TextEncoder_encode str | Buf b \<Rightarrow> b)"
proof -
  define p where "p = (case dat of Str str \<Rightarrow> TextEncoder_encode str | Buf b \<Rightarrow> b)"
  define v where "v = fst (generateIV rs)"
  define e where "e = xorCrypt p (encKey (deriveKeys hf S)) v"
  define t where "t = take 16 (hf SHA512 (macKey (deriveKeys hf S) @ v @ e))"
  have msg: "fst (encrypt hf S dat rs) = \<lparr>iv = v, ciphertext = e @ t\<rparr>"
    by (simp add: encrypt_eq Let_def p_def v_def e_def t_def)
  have lt: "length t = 16"
    using assms [THEN spec, of "macKey (deriveKeys hf S) @ v @ e"] by (simp add: t_def)
  have "decrypt hf S v (e @ t) = Inr (xorCrypt e (encKey (deriveKeys hf S)) v)"
    using lt by (simp add: decrypt_eq) (simp add: t_def)
  then show ?thesis
    by (simp add: msg e_def xorCrypt_involution flip: p_def)
qed

theorem decrypt_encrypt_witness:
  "(\<forall>x. 16 \<le> length (example_hashFunctions SHA512 x))
   \<and> decrypt example_hashFunctions 5
        (iv (fst (encrypt example_hashFunctions 5 (Buf [1, 2, 3]) example_sources)))
        (ciphertext (fst (encrypt example_hashFunctions 5 (Buf [1, 2, 3]) example_sources)))
      = Inr [1, 2, 3]"
  using decrypt_encrypt [of example_hashFunctions 5 "Buf [1, 2, 3]" example_sources]
  by (simp add: example_hashFunctions_def digest_length_def)

text \<open>
  C2 (the code departs from the claim). The IV that \<open>encrypt\<close> returns is computed from
  the next sixteen numbers of \<^verbatim>\<open>Math.random()\<close>, and \<open>encrypt\<close> consumes nothing of
  \<^verbatim>\<open>crossEnvCrypto.randomBytes\<close>, the source that \<open>generateRandom\<close> of utils.ts draws from.
\<close>

theorem encrypt_iv_from_Math_random:
  "iv (fst (encrypt hf S dat rs))
     = map (\<lambda>i. to_uint8 (Some \<lfloor>Math_random rs (Math_random_calls rs + i) * 256\<rfloor>)) [0..<16]
   \<and> Math_random_calls (snd (encrypt hf S dat rs)) = Math_random_calls rs + 16
   \<and> randomBytes_used (snd (encrypt hf S dat rs)) = randomBytes_used rs
   \<and> randomBytes_used (snd (generateRandom 16 rs)) = randomBytes_used rs + 16"
  by (simp add: encrypt_def generateIV_def generateRandom_def Let_def split: prod.splits)

lemma encrypt_iv_example:
  "iv (fst (encrypt example_hashFunctions 5 (Buf [1, 2, 3]) example_sources)) = replicate 16 128
   \<and> fst (generateRandom 16 example_sources) = replicate 16 255"
  by (simp add: encrypt_eq generateIV_def generateRandom_def example_sources_def
      to_uint8_def Let_def map_replicate_const)

text \<open>
  C3. \<open>decrypt\<close> raises the short-ciphertext error exactly when its input has fewer than
  16 bytes. On a longer input it raises the tag-mismatch error exactly when the first 16
  bytes of the digest of the MAC key, the IV and the input without its last 16 bytes differ
  from those last 16 bytes, and otherwise returns the decrypted prefix: as many bytes as
  the input has without its tag, byte \<open>i\<close> being the input byte \<open>i\<close> XOR byte
  \<open>i mod |encKey|\<close> of the encryption key XOR byte \<open>i mod |iv|\<close> of the IV (an empty key
  or IV contributes 0). It has no other outcome.
\<close>

theorem decrypt_outcomes:
  "(decrypt hf S v ct = Inl CiphertextTooShort) = (length ct < 16)
   \<and> (decrypt hf S v ct = Inl AuthTagMismatch)
       = (16 \<le> length ct
          \<and> take 16 (hf SHA512 (macKey (deriveKeys hf S) @ v @ take (length ct - 16) ct))
              \<noteq> drop (length ct - 16) ct)
   \<and> (decrypt hf S v ct = Inr (xorCrypt (take (length ct - 16) ct) (encKey (deriveKeys hf S)) v))
       = (16 \<le> length ct
          \<and> take 16 (hf SHA512 (macKey (deriveKeys hf S) @ v @ take (length ct - 16) ct))
              = drop (length ct - 16) ct)
   \<and> decrypt hf S v ct \<in>
       {Inl CiphertextTooShort, Inl AuthTagMismatch,
        Inr (xorCrypt (take (length ct - 16) ct) (encKey (deriveKeys hf S)) v)}
   \<and> xorCrypt (take (length ct - 16) ct) (encKey (deriveKeys hf S)) v
       = map (\<lambda>i. ct ! i
                XOR (if encKey (deriveKeys hf S) = [] then 0
                     else encKey (deriveKeys hf S) ! (i mod length (encKey (deriveKeys hf S))))
                XOR (if v = [] then 0 else v ! (i mod length v)))
           [0..<length ct - 16]
   \<and> (decrypt hf S v ct
        = Inr (map (\<lambda>i. ct ! i
                XOR (if encKey (deriveKeys hf S) = [] then 0
                     else encKey (deriveKeys hf S) ! (i mod length (encKey (deriveKeys hf S))))
                XOR (if v = [] then 0 else v ! (i mod length v)))
           [0..<length ct - 16]))
       = (16 \<le> length ct
          \<and> take 16 (hf SHA512 (macKey (deriveKeys hf S) @ v @ take (length ct - 16) ct))
              = drop (length ct - 16) ct)"
proof -
  have bytes: "xorCrypt (take (length ct - 16) ct) (encKey (deriveKeys hf S)) v
       = map (\<lambda>i. ct ! i
                XOR (if encKey (deriveKeys hf S) = [] then 0
                     else encKey (deriveKeys hf S) ! (i mod length (encKey (deriveKeys hf S))))
                XOR (if v = [] then 0 else v ! (i mod length v)))
           [0..<length ct - 16]"
    by (simp add: xorCrypt_bytes)
  show ?thesis
    unfolding bytes [symmetric] by (auto simp: decrypt_eq)
qed

text \<open>
  C4. For a plaintext of \<open>L\<close> bytes, \<open>encrypt\<close> returns an IV of 16 bytes and a ciphertext
  of \<open>L + 16\<close> bytes. Byte \<open>i\<close> of the first \<open>L\<close> is the plaintext byte \<open>i\<close> XOR byte
  \<open>i mod |encKey|\<close> of the encryption key XOR byte \<open>i mod 16\<close> of the IV; the last 16 are
  the first 16 bytes of the digest of the MAC key, the IV and the first \<open>L\<close> bytes. The
  digests of the platform must have at least 16 bytes.
\<close>

theorem encrypt_ciphertext:
  assumes "\<forall>x. 16 \<le> length (hf SHA512 x)"
  shows "let msg = fst (encrypt hf S dat rs);
             plaintext = (case dat of Str str \<Rightarrow> TextEncoder_encode str | Buf b \<Rightarrow> b);
             keys = deriveKeys hf S;
             L = length plaintext
         in length (iv msg) = 16
            \<and> length (ciphertext msg) = L + 16
            \<and> (\<forall>i<L. ciphertext msg ! i
                  = plaintext ! i XOR encKey keys ! (i mod length (encKey keys))
                      XOR iv msg ! (i mod 16))
            \<and> drop L (ciphertext msg)
                = take 16 (hf SHA512 (macKey keys @ iv msg @ take L (ciphertext msg)))"
proof -
  define p where "p = (case dat of Str str \<Rightarrow> TextEncoder_encode str | Buf b \<Rightarrow> b)"
  define v where "v = fst (generateIV rs)"
  define k where "k = encKey (deriveKeys hf S)"
  define e where "e = xorCrypt p k v"
  define t where "t = take 16 (hf SHA512 (macKey (deriveKeys hf S) @ v @ e))"
  have msg: "fst (encrypt hf S dat rs) = \<lparr>iv = v, ciphertext = e @ t\<rparr>"
    by (simp add: encrypt_eq Let_def p_def v_def e_def t_def k_def)
  have lv: "length v = 16" by (simp add: v_def length_generateIV)
  have le: "length e = length p" by (simp add: e_def length_xorCrypt)
  have lt: "length t = 16"
    using assms [THEN spec, of "macKey (deriveKeys hf S) @ v @ e"] by (simp add: t_def)
  have "16 \<le> length k"
    using assms by (simp add: k_def deriveKeys_def Let_def hash_def H_default)
  then have k: "k \<noteq> []" by auto
  have v: "v \<noteq> []" using lv by auto
  have bytes: "(e @ t) ! i = p ! i XOR k ! (i mod length k) XOR v ! (i mod 16)"
    if "i < length p" for i
    using that le lv xorCrypt_nth_nonempty [OF that k v] by (simp add: nth_append e_def)
  have tag: "drop (length p) (e @ t) = take 16 (hf SHA512 (macKey (deriveKeys hf S) @ v @ take (length p) (e @ t)))"
    using le by (simp add: t_def)
  show ?thesis
    unfolding Let_def msg p_def [symmetric] k_def [symmetric]
    using lv le lt bytes tag by simp
qed

theorem encrypt_ciphertext_witness:
  "(\<forall>x. 16 \<le> length (example_hashFunctions SHA512 x))
   \<and> length (iv (fst (encrypt example_hashFunctions 5 (Buf [1, 2, 3]) example_sources))) = 16
   \<and> length (ciphertext (fst (encrypt example_hashFunctions 5 (Buf [1, 2, 3]) example_sources)))
       = 3 + 16
   \<and> ciphertext (fst (encrypt example_hashFunctions 5 (Buf [1, 2, 3]) example_sources)) ! 1
       = 2 XOR encKey (deriveKeys example_hashFunctions 5)
                 ! (1 mod length (encKey (deriveKeys example_hashFunctions 5)))
           XOR iv (fst (encrypt example_hashFunctions 5 (Buf [1, 2, 3]) example_sources))
                 ! (1 mod 16)"
  using encrypt_ciphertext [of example_hashFunctions 5 "Buf [1, 2, 3]" example_sources]
  by (simp add: example_hashFunctions_def digest_length_def Let_def)

text \<open>
  The example platform, computed: a message, its decryption, a message with one bit of the
  ciphertext flipped, and one without its tag.
\<close>

lemma encrypt_example:
  "fst (encrypt example_hashFunctions 5 (Buf [1, 2, 3]) example_sources)
     = \<lparr>iv = replicate 16 128, ciphertext = [209, 210, 211] @ replicate 16 182\<rparr>"
proof -
  have k: "deriveKeys example_hashFunctions 5 = \<lparr>encKey = replicate 64 80, macKey = replicate 64 229\<rparr>"
    by (simp add: deriveKeys_def Let_def hash_def H_default enc_lit auth_lit
        bigIntToArrayBuffer_be be_encode.simps example_hashFunctions_def digest_length_def)
  have v: "fst (generateIV example_sources) = replicate 16 128"
    by (simp add: generateIV_def example_sources_def to_uint8_def map_replicate_const)
  have x: "xorCrypt [1, 2, 3] (replicate 64 80) (replicate 16 128) = [209, 210, 211]"
    by (simp add: xorCrypt_def js_rem_index_def u8_get_def xor_operand_def upt_rec)
  show ?thesis
    by (simp add: encrypt_eq Let_def k v x example_hashFunctions_def digest_length_def
        sum_list_replicate)
qed


lemma decrypt_example:
  "decrypt example_hashFunctions 5 (replicate 16 128) ([209, 210, 211] @ replicate 16 182)
     = Inr [1, 2, 3]
   \<and> decrypt example_hashFunctions 5 (replicate 16 128) ([208, 210, 211] @ replicate 16 182)
     = Inl AuthTagMismatch
   \<and> decrypt example_hashFunctions 5 (replicate 16 128) [209, 210, 211]
     = Inl CiphertextTooShort"
proof -
  have k: "deriveKeys example_hashFunctions 5 = \<lparr>encKey = replicate 64 80, macKey = replicate 64 229\<rparr>"
    by (simp add: deriveKeys_def Let_def hash_def H_default enc_lit auth_lit
        bigIntToArrayBuffer_be be_encode.simps example_hashFunctions_def digest_length_def)
  have x: "xorCrypt [209, 210, 211] (replicate 64 80) (replicate 16 128) = [1, 2, 3]"
    by (simp add: xorCrypt_def js_rem_index_def u8_get_def xor_operand_def upt_rec)
  show ?thesis
    by (simp add: decrypt_eq k x example_hashFunctions_def digest_length_def sum_list_replicate)
qed

text \<open>
  C5. The two keys are the digests of the bytes of the secret followed by the UTF-8 bytes
  of the words "encryption" and "authentication"; the bytes of a non-negative secret are
  its big-endian encoding without padding; the digest is the one of default parameters,
  and where that digest (SHA-512) has 64 bytes, so has each key.
\<close>

theorem deriveKeys_derivation:
  assumes "0 \<le> S"
  shows "encKey (deriveKeys hf S)
           = H (SRPParameters_new hf None) (be_encode (nat S) @ map of_char ''encryption'')
       \<and> macKey (deriveKeys hf S)
           = H (SRPParameters_new hf None) (be_encode (nat S) @ map of_char ''authentication'')
       \<and> ((\<forall>x. length (hf SHA512 x) = 64) \<longrightarrow>
             length (encKey (deriveKeys hf S)) = 64 \<and> length (macKey (deriveKeys hf S)) = 64)"
  using assms
  by (simp add: deriveKeys_def Let_def hash_def enc_lit auth_lit bigIntToArrayBuffer_be H_default)

theorem deriveKeys_derivation_witness:
  "(0::int) \<le> 5
   \<and> (\<forall>x. length (example_hashFunctions SHA512 x) = 64)
   \<and> encKey (deriveKeys example_hashFunctions 5)
       = example_hashFunctions SHA512 ([5] @ map of_char ''encryption'')
   \<and> length (encKey (deriveKeys example_hashFunctions 5)) = 64
   \<and> length (macKey (deriveKeys example_hashFunctions 5)) = 64"
  using deriveKeys_derivation [of 5 example_hashFunctions]
  by (simp add: H_default be_encode.simps) (simp add: example_hashFunctions_def digest_length_def)

text \<open>
  C6, as amended. \<open>deriveKeys\<close> and \<open>computeMAC\<close> take no parameters from the session:
  whatever hash the session's parameters select, the keys and the tag are digests of the
  hash of default parameters, SHA-512.
\<close>

theorem encryption_layer_hash:
  "encKey (deriveKeys hf S)
     = hf SHA512 (bigIntToArrayBuffer S @ TextEncoder_encode (ascii ''encryption''))
   \<and> macKey (deriveKeys hf S)
       = hf SHA512 (bigIntToArrayBuffer S @ TextEncoder_encode (ascii ''authentication''))
   \<and> computeMAC hf k v c = hf SHA512 (k @ v @ c)"
  by (simp add: deriveKeys_def Let_def hash_def H_default computeMAC_eq)

text \<open>
  C6 as stated fails: for a session whose parameters select SHA-1, the key that
  \<open>deriveKeys\<close> returns and the tag digest that \<open>computeMAC\<close> returns are not the digests
  under those parameters.
\<close>

theorem encryption_layer_ignores_selected_hash:
  "encKey (deriveKeys example_hashFunctions 5)
     \<noteq> hash (SRPParameters_new example_hashFunctions (Some (example_hashFunctions SHA1)))
         [bigIntToArrayBuffer 5, TextEncoder_encode (ascii ''encryption'')]
   \<and> computeMAC example_hashFunctions [1] [2] [3]
     \<noteq> hash (SRPParameters_new example_hashFunctions (Some (example_hashFunctions SHA1)))
         [[1], [2], [3]]"
  by (simp add: deriveKeys_def Let_def hash_def computeMAC_def SRPParameters_new_def
      example_hashFunctions_def digest_length_def)

subsection \<open>createVerifier\<close>

lemma createVerifier_eq:
  "createVerifier routines I s P =
     (case I of
        None \<Rightarrow> Inl IdentityNullOrEmpty
      | Some I' \<Rightarrow>
          if trim I' = [] then Inl IdentityNullOrEmpty
          else case s of
            None \<Rightarrow> Inl SaltNull
          | Some s' \<Rightarrow>
              if s' = 0 then Inl SaltNull
              else case P of
                None \<Rightarrow> Inl PasswordNull
              | Some P' \<Rightarrow>
                  if P' = [] then Inl PasswordNull
                  else Inr (computeVerifier routines (computeX routines I' s' P')))"
  by (auto simp: createVerifier_def not_string_def not_bigint_def trim_def split: option.splits)

text \<open>
  C8 as stated fails: the salt \<^verbatim>\<open>0n\<close> is not null, the identity is not empty and the
  password is not null, and \<open>createVerifier\<close> raises the error of the salt check. So it
  does for the empty password.
\<close>

theorem createVerifier_zero_salt:
  "createVerifier example_routines (Some (ascii ''alice'')) (Some 0) (Some (ascii ''secret''))
     = Inl SaltNull
   \<and> trim (ascii ''alice'') \<noteq> []
   \<and> Some (0::int) \<noteq> None"
  by (simp add: createVerifier_eq trim_def ascii_def is_white_space_def)

lemma createVerifier_empty_password:
  "createVerifier example_routines (Some (ascii ''alice'')) (Some 3) (Some [])
     = Inl PasswordNull"
  by (simp add: createVerifier_eq trim_def ascii_def is_white_space_def)

lemma createVerifier_example:
  "createVerifier example_routines (Some (ascii ''alice'')) (Some 3) (Some (ascii ''secret''))
     = Inr 28"
  by (simp add: createVerifier_eq trim_def ascii_def is_white_space_def example_routines_def)

text \<open>
  C8, as amended. \<open>createVerifier\<close> raises an error exactly when the identity is null or
  empty after trimming, the salt is null or \<^verbatim>\<open>0n\<close>, or the password is null or the empty
  string. The checks are made in this order, for arguments that are null as for others:
  the identity's error before the salt's, the salt's before the password's. Otherwise it
  returns \<open>computeVerifier (computeX I s P)\<close>. \<open>createVerifierAndSalt\<close> draws a salt with
  \<open>generateRandomSalt\<close> and returns it with what \<open>createVerifier\<close> returns for it.
\<close>

theorem createVerifier_outcomes:
  "createVerifier routines I s P
     = (if I = None \<or> map_option trim I = Some [] then Inl IdentityNullOrEmpty
        else if s = None \<or> s = Some 0 then Inl SaltNull
        else if P = None \<or> P = Some [] then Inl PasswordNull
        else Inr (computeVerifier routines (computeX routines (the I) (the s) (the P))))
   \<and> ((\<exists>e. createVerifier routines I s P = Inl e)
      = (I = None \<or> map_option trim I = Some [] \<or> s = None \<or> s = Some 0
         \<or> P = None \<or> P = Some []))
   \<and> createVerifier routines (Some I') (Some s') (Some P')
       = (if trim I' = [] then Inl IdentityNullOrEmpty
          else if s' = 0 then Inl SaltNull
          else if P' = [] then Inl PasswordNull
          else Inr (computeVerifier routines (computeX routines I' s' P')))
   \<and> createVerifierAndSalt routines I P sBytes rs
       = (let (salt, rs') = generateRandomSalt routines sBytes rs
          in (map_sum id (\<lambda>v. \<lparr>verifier_v = v, salt_s = salt\<rparr>)
                (createVerifier routines I (Some salt) P), rs'))"
  by (auto simp: createVerifier_eq createVerifierAndSalt_def
      split: option.splits sum.splits prod.splits)

lemma createVerifier_null_arguments:
  "createVerifier example_routines None None None = Inl IdentityNullOrEmpty
   \<and> createVerifier example_routines (Some (ascii ''alice'')) None None = Inl SaltNull
   \<and> createVerifier example_routines (Some (ascii ''alice'')) (Some 3) None = Inl PasswordNull
   \<and> createVerifier example_routines (Some (ascii '' '')) None None = Inl IdentityNullOrEmpty"
  by (simp add: createVerifier_eq trim_def ascii_def is_white_space_def)

subsection \<open>modPow\<close>

lemma bigint_rem_nonneg: "0 \<le> a \<Longrightarrow> 0 < b \<Longrightarrow> bigint_rem a b = a mod b"
  by (cases "a = 0") (simp_all add: bigint_rem_def)

lemma bigint_div_nonneg: "0 \<le> a \<Longrightarrow> 0 < b \<Longrightarrow> bigint_div a b = a div b"
  by (cases "a = 0") (simp_all add: bigint_div_def)

lemma modPow_body_odd:
  "0 < pow \<Longrightarrow> odd pow \<Longrightarrow> modPow_body m (x, pow, r) = (x, pow - 1, bigint_rem (x * r) m)"
  by (simp add: modPow_body_def bigint_rem_nonneg odd_iff_mod_2_eq_one)

lemma modPow_body_even:
  "0 < pow \<Longrightarrow> even pow \<Longrightarrow> modPow_body m (x, pow, r) = (bigint_rem (x * x) m, pow div 2, r)"
  by (simp add: modPow_body_def bigint_rem_nonneg bigint_div_nonneg even_iff_mod_2_eq_zero)

lemma modPow_loop_correct:
  "0 \<le> x \<Longrightarrow> 0 \<le> r \<Longrightarrow> 1 \<le> m \<Longrightarrow> 0 < pow \<Longrightarrow>
     modPow_loop m (x, pow, r) = (x ^ nat pow * r) mod m"
proof (induction m "(x, pow, r)" arbitrary: x pow r rule: modPow_loop.induct)
  case (1 m x pow r)
  show ?case
  proof (cases "odd pow")
    case True
    have body: "modPow_body m (x, pow, r) = (x, pow - 1, (x * r) mod m)"
      using 1 True by (simp add: modPow_body_odd bigint_rem_nonneg)
    show ?thesis
    proof (cases "pow = 1")
      case True
      then show ?thesis
        using body by (simp add: modPow_loop.simps [of m x 1 r] modPow_loop.simps [of m x 0])
    next
      case False
      with 1 have "0 < pow - 1" by simp
      moreover have "0 \<le> (x * r) mod m" using 1 by simp
      ultimately have "modPow_loop m (x, pow - 1, (x * r) mod m)
          = (x ^ nat (pow - 1) * ((x * r) mod m)) mod m"
        using 1 body by simp
      also have "\<dots> = (x ^ nat (pow - 1) * (x * r)) mod m"
        by (simp add: mod_mult_right_eq)
      also have "x ^ nat (pow - 1) * (x * r) = x ^ nat pow * r"
      proof -
        have "nat pow = Suc (nat (pow - 1))" using 1 by simp
        then show ?thesis by simp
      qed
      finally show ?thesis
        using 1 body by (simp add: modPow_loop.simps [of m x pow r])
    qed
  next
    case False
    then have ev: "even pow" by simp
    have body: "modPow_body m (x, pow, r) = ((x * x) mod m, pow div 2, r)"
      using 1 ev by (simp add: modPow_body_even bigint_rem_nonneg)
    have half: "0 < pow div 2" using \<open>0 < pow\<close> ev by presburger
    have "0 \<le> (x * x) mod m" using 1 by simp
    with half have "modPow_loop m ((x * x) mod m, pow div 2, r)
        = (((x * x) mod m) ^ nat (pow div 2) * r) mod m"
      using 1 body by simp
    also have "\<dots> = ((x * x) ^ nat (pow div 2) * r) mod m"
      by (metis mod_mult_left_eq power_mod)
    also have "(x * x) ^ nat (pow div 2) = x ^ nat pow"
    proof -
      from ev obtain q where q: "pow = 2 * q" by (auto elim: evenE)
      then have "nat pow = 2 * nat (pow div 2)" by (simp add: nat_mult_distrib)
      then show ?thesis by (simp add: power_mult power2_eq_square)
    qed
    finally show ?thesis
      using 1 body by (simp add: modPow_loop.simps [of m x pow r])
  qed
qed

lemma modPow_loop_iterates:
  "0 \<le> pow \<Longrightarrow>
     \<exists>k. k \<le> nat pow \<and> fst (snd ((modPow_body m ^^ k) (x, pow, r))) = 0
        \<and> modPow_loop m (x, pow, r) = snd (snd ((modPow_body m ^^ k) (x, pow, r)))"
proof (induction m "(x, pow, r)" arbitrary: x pow r rule: modPow_loop.induct)
  case (1 m x pow r)
  show ?case
  proof (cases "0 < pow")
    case False
    with 1 have "pow = 0" by simp
    then show ?thesis by (simp add: modPow_loop.simps [of m x 0 r])
  next
    case True
    obtain x' p' r' where body: "modPow_body m (x, pow, r) = (x', p', r')"
      by (cases "modPow_body m (x, pow, r)") auto
    have dec: "p' < pow \<and> 0 \<le> p'"
      using True body by (cases "odd pow") (auto simp: modPow_body_odd modPow_body_even)
    then obtain k where k: "k \<le> nat p'" "fst (snd ((modPow_body m ^^ k) (x', p', r'))) = 0"
        "modPow_loop m (x', p', r') = snd (snd ((modPow_body m ^^ k) (x', p', r')))"
      using 1 True body by blast
    have "Suc k \<le> nat pow" using k(1) dec by linarith
    moreover have "(modPow_body m ^^ Suc k) (x, pow, r) = (modPow_body m ^^ k) (x', p', r')"
      by (simp add: funpow_swap1 body)
    moreover have "modPow_loop m (x, pow, r) = modPow_loop m (x', p', r')"
      using True body by (simp add: modPow_loop.simps [of m x pow r])
    ultimately show ?thesis using k by metis
  qed
qed

lemma modPow_positive_power:
  "0 \<le> x \<Longrightarrow> 0 < pow \<Longrightarrow> 1 \<le> m \<Longrightarrow> modPow x pow m = Inr (x ^ nat pow mod m)"
  using modPow_loop_correct [of x 1 m pow] by (simp add: modPow_def)

lemma modPow_error_iff:
  "(\<exists>e. modPow x pow m = Inl e) \<longleftrightarrow> x < 0 \<or> pow < 0 \<or> m < 1"
  by (simp add: modPow_def)

text \<open>
  C7 (the code departs from the claim). The three checks of \<open>modPow\<close> are as claimed
  (\<open>modPow_error_iff\<close>) and a positive power is computed as claimed
  (\<open>modPow_positive_power\<close>). With the power 0 the loop is not entered and the initial
  result 1 is returned without being reduced: for the modulus 1 the code returns 1, where
  \<open>x ^ 0 mod 1\<close> is 0.
\<close>

theorem modPow_power_zero_modulo_one:
  "modPow 5 0 1 = Inr 1 \<and> (5::int) ^ nat 0 mod 1 = 0"
  by (simp add: modPow_def modPow_loop.simps)

text \<open>
  C10. On arguments that pass the checks, the loop of \<open>modPow\<close> ends: after some number
  \<open>k\<close> of iterations, at most the exponent, the exponent is 0 and \<open>modPow\<close> returns the
  result held then. Every iteration started with a positive exponent leaves a smaller one:
  an odd exponent is decremented, an even one is halved.
\<close>

theorem modPow_terminates:
  assumes "0 \<le> x" and "0 \<le> pow" and "1 \<le> m"
  shows "(\<exists>k. k \<le> nat pow
            \<and> fst (snd ((modPow_body m ^^ k) (x, pow, 1))) = 0
            \<and> modPow x pow m = Inr (snd (snd ((modPow_body m ^^ k) (x, pow, 1)))))
       \<and> (\<forall>y p r. 0 < p \<longrightarrow>
             fst (snd (modPow_body m (y, p, r))) = (if odd p then p - 1 else p div 2)
             \<and> fst (snd (modPow_body m (y, p, r))) < p)"
proof
  show "\<exists>k. k \<le> nat pow
          \<and> fst (snd ((modPow_body m ^^ k) (x, pow, 1))) = 0
          \<and> modPow x pow m = Inr (snd (snd ((modPow_body m ^^ k) (x, pow, 1))))"
    using assms modPow_loop_iterates [of pow m x 1] by (simp add: modPow_def)
next
  show "\<forall>y p r. 0 < p \<longrightarrow>
          fst (snd (modPow_body m (y, p, r))) = (if odd p then p - 1 else p div 2)
          \<and> fst (snd (modPow_body m (y, p, r))) < p"
    by (auto simp: modPow_body_odd modPow_body_even)
qed

theorem modPow_terminates_witness:
  "(0::int) \<le> 3 \<and> (0::int) \<le> 5 \<and> (1::int) \<le> 7
   \<and> (\<exists>k. k \<le> nat 5
          \<and> fst (snd ((modPow_body 7 ^^ k) (3, 5, 1))) = 0
          \<and> modPow 3 5 7 = Inr (snd (snd ((modPow_body 7 ^^ k) (3, 5, 1)))))"
  using modPow_terminates [of 3 5 7] by simp

end
